theory Spec2Isabelle
  imports Main
begin

section \<open>The containers the cache is built from\<close>

text \<open>
  The cache of \<^verbatim>\<open>src/include/lru.h\<close> (and its smaller sibling \<^verbatim>\<open>src/lru.h\<close>) holds
  a \<^verbatim>\<open>std::list\<close> of key/value pairs and a \<^verbatim>\<open>std::unordered_map\<close> from keys to list
  iterators. A list iterator is the address of a list node: it stays valid while other
  nodes are inserted, spliced or erased. The list is therefore modelled as the sequence of
  its nodes from \<^verbatim>\<open>begin()\<close> to \<^verbatim>\<open>end()\<close>, each node carrying its address, and an iterator is
  either \<^verbatim>\<open>end()\<close> or the address of a node.

  Dereferencing an iterator that designates no node of the list, and \<^verbatim>\<open>back()\<close> or
  \<^verbatim>\<open>pop_back()\<close> on an empty list, are undefined behaviour in C++. The model returns
  \<open>None\<close> there, so that every theorem below that exhibits a result also shows that
  the code stays inside defined behaviour.

  Keys are compared with HOL equality: the \<^verbatim>\<open>Hash\<close> and \<^verbatim>\<open>Eq\<close> template parameters are taken
  to be consistent with each other, as the standard library requires. \<^verbatim>\<open>size_t\<close> values
  are natural numbers: the code only compares them. Allocation of a list node or of a
  map entry is taken to succeed, and the callables handed to \<^verbatim>\<open>for_each\<close> and \<^verbatim>\<open>try_update\<close>
  to return without calling the cache themselves.
\<close>

type_synonym handle = nat

datatype iterator = End | At handle

datatype ('k, 'v) node = Node (addr: handle) (first: 'k) (second: 'v)

text \<open>The allocator hands out an address that no live node occupies.\<close>

fun fresh :: "('k, 'v) node list \<Rightarrow> handle" where
  "fresh [] = 0"
| "fresh (n # ns) = max (Suc (addr n)) (fresh ns)"

definition list_begin :: "('k, 'v) node list \<Rightarrow> iterator" where
  "list_begin xs = (case xs of [] \<Rightarrow> End | n # _ \<Rightarrow> At (addr n))"

definition deref :: "iterator \<Rightarrow> ('k, 'v) node list \<Rightarrow> ('k, 'v) node option" where
  "deref it xs = (case it of End \<Rightarrow> None | At h \<Rightarrow> find (\<lambda>n. addr n = h) xs)"

text \<open>\<^verbatim>\<open>list.emplace(list.begin(), key, value)\<close>\<close>

definition emplace_begin :: "'k \<Rightarrow> 'v \<Rightarrow> ('k, 'v) node list \<Rightarrow> ('k, 'v) node list" where
  "emplace_begin k v xs = Node (fresh xs) k v # xs"

text \<open>\<^verbatim>\<open>list.splice(list.begin(), list, it)\<close>: the node is unlinked and relinked in front.\<close>

definition splice_begin :: "iterator \<Rightarrow> ('k, 'v) node list \<Rightarrow> ('k, 'v) node list option" where
  "splice_begin it xs =
     (case deref it xs of
        None \<Rightarrow> None
      | Some n \<Rightarrow> Some (n # filter (\<lambda>m. addr m \<noteq> addr n) xs))"

text \<open>A write through an iterator to the \<^verbatim>\<open>second\<close> member of the pair it designates.\<close>

definition update_second ::
  "iterator \<Rightarrow> ('v \<Rightarrow> 'v) \<Rightarrow> ('k, 'v) node list \<Rightarrow> ('k, 'v) node list option" where
  "update_second it f xs =
     (case deref it xs of
        None \<Rightarrow> None
      | Some n \<Rightarrow>
          Some (map (\<lambda>m. if addr m = addr n then Node (addr m) (first m) (f (second m)) else m) xs))"

definition list_back :: "('k, 'v) node list \<Rightarrow> ('k, 'v) node option" where
  "list_back xs = (if xs = [] then None else Some (last xs))"

definition list_pop_back :: "('k, 'v) node list \<Rightarrow> ('k, 'v) node list option" where
  "list_pop_back xs = (if xs = [] then None else Some (butlast xs))"

section \<open>The cache of \<^verbatim>\<open>src/include/lru.h\<close>\<close>

record ('k, 'v) lru =
  lru_map :: "'k \<rightharpoonup> iterator"
  lru_list :: "('k, 'v) node list"
  lru_capacity :: nat

text \<open>
  The members \<^verbatim>\<open>_map\<close>, \<^verbatim>\<open>_list\<close> and \<^verbatim>\<open>_capacity\<close>. Protected member functions keep
  their names with the leading underscore written \<open>u_\<close>; public ones are prefixed
  with \<open>lru_\<close> where the plain name is taken in HOL.
\<close>

text \<open>\<^verbatim>\<open>explicit lru(size_t capacity) : _capacity(capacity) {}\<close>\<close>

definition lru_ctor :: "nat \<Rightarrow> ('k, 'v) lru" where
  "lru_ctor capacity = \<lparr>lru_map = Map.empty, lru_list = [], lru_capacity = capacity\<rparr>"

text \<open>
  \<^verbatim>\<open>end()\<close>, \<^verbatim>\<open>begin()\<close>, \<^verbatim>\<open>empty()\<close>, \<^verbatim>\<open>size()\<close> and \<^verbatim>\<open>max_size()\<close> return \<^verbatim>\<open>_list.end()\<close>,
  \<^verbatim>\<open>_list.begin()\<close>, \<^verbatim>\<open>_list.empty()\<close>, \<^verbatim>\<open>_list.size()\<close> and \<^verbatim>\<open>_capacity\<close>.
\<close>

definition lru_end :: "('k, 'v) lru \<Rightarrow> iterator" where
  "lru_end c = End"

definition lru_begin :: "('k, 'v) lru \<Rightarrow> iterator" where
  "lru_begin c = list_begin (lru_list c)"

definition lru_empty :: "('k, 'v) lru \<Rightarrow> bool" where
  "lru_empty c = (lru_list c = [])"

definition lru_size :: "('k, 'v) lru \<Rightarrow> nat" where
  "lru_size c = length (lru_list c)"

definition max_size :: "('k, 'v) lru \<Rightarrow> nat" where
  "max_size c = lru_capacity c"

text \<open>\<^verbatim>\<open>_contains(key)\<close>: \<^verbatim>\<open>return _map.find(key) != _map.end();\<close>\<close>

definition u_contains :: "'k \<Rightarrow> ('k, 'v) lru \<Rightarrow> bool" where
  "u_contains key c = (lru_map c key \<noteq> None)"

text \<open>
  \<^verbatim>\<open>_promote(iter)\<close>:
  \<^verbatim>\<open>if (iter != _list.begin()) { _list.splice(_list.begin(), _list, iter); }\<close>
\<close>

definition u_promote :: "iterator \<Rightarrow> ('k, 'v) lru \<Rightarrow> ('k, 'v) lru option" where
  "u_promote iter c =
     (if iter \<noteq> list_begin (lru_list c)
      then (case splice_begin iter (lru_list c) of
              None \<Rightarrow> None
            | Some xs \<Rightarrow> Some (c\<lparr>lru_list := xs\<rparr>))
      else Some c)"

text \<open>\<^verbatim>\<open>_evict()\<close>: \<^verbatim>\<open>_map.erase(_list.back().first); _list.pop_back();\<close>\<close>

definition u_evict :: "('k, 'v) lru \<Rightarrow> ('k, 'v) lru option" where
  "u_evict c =
     (case list_back (lru_list c) of
        None \<Rightarrow> None
      | Some n \<Rightarrow>
          (case list_pop_back (lru_list c) of
             None \<Rightarrow> None
           | Some xs \<Rightarrow> Some (c\<lparr>lru_map := (lru_map c)(first n := None), lru_list := xs\<rparr>)))"

text \<open>\<^verbatim>\<open>_prune(capacity)\<close>: \<^verbatim>\<open>while (_list.size() > capacity) { _evict(); }\<close>\<close>

function u_prune :: "nat \<Rightarrow> ('k, 'v) lru \<Rightarrow> ('k, 'v) lru option" where
  "u_prune capacity c =
     (if length (lru_list c) > capacity
      then (case u_evict c of None \<Rightarrow> None | Some c' \<Rightarrow> u_prune capacity c')
      else Some c)"
  by pat_completeness auto
termination
  by (relation "measure (\<lambda>(capacity, c). length (lru_list c))") (auto simp: u_evict_def list_back_def list_pop_back_def split: if_splits)

declare u_prune.simps [simp del]

text \<open>
  \<^verbatim>\<open>_insert(key, value)\<close>:
  \<^verbatim>\<open>auto iter = _list.emplace(_list.begin(), key, value);\<close>
  \<^verbatim>\<open>_map[iter->first] = _list.begin();\<close>
  \<^verbatim>\<open>_prune();\<close> where \<^verbatim>\<open>_prune()\<close> is \<^verbatim>\<open>_prune(_capacity)\<close>.
\<close>

definition u_insert :: "'k \<Rightarrow> 'v \<Rightarrow> ('k, 'v) lru \<Rightarrow> ('k, 'v) lru option" where
  "u_insert key val c =
     (let c1 = c\<lparr>lru_list := emplace_begin key val (lru_list c)\<rparr>;
          c2 = c1\<lparr>lru_map := (lru_map c1)(key \<mapsto> list_begin (lru_list c1))\<rparr>
      in u_prune (lru_capacity c2) c2)"

text \<open>
  The public member functions. Each returns its result together with the state it
  leaves; a lookup that finds nothing in \<^verbatim>\<open>_map\<close> returns at once.
\<close>

definition lru_find :: "'k \<Rightarrow> ('k, 'v) lru \<Rightarrow> (iterator \<times> ('k, 'v) lru) option" where
  "lru_find key c =
     (case lru_map c key of
        None \<Rightarrow> Some (lru_end c, c)
      | Some iter \<Rightarrow>
          (case u_promote iter c of None \<Rightarrow> None | Some c' \<Rightarrow> Some (iter, c')))"

definition contains :: "'k \<Rightarrow> ('k, 'v) lru \<Rightarrow> (bool \<times> ('k, 'v) lru) option" where
  "contains key c =
     (case lru_find key c of
        None \<Rightarrow> None
      | Some (iter, c') \<Rightarrow> Some (iter \<noteq> lru_end c', c'))"

definition lru_insert :: "'k \<Rightarrow> 'v \<Rightarrow> ('k, 'v) lru \<Rightarrow> (bool \<times> ('k, 'v) lru) option" where
  "lru_insert key val c =
     (if u_contains key c then Some (False, c)
      else (case u_insert key val c of None \<Rightarrow> None | Some c' \<Rightarrow> Some (True, c')))"

definition insert_or_assign :: "'k \<Rightarrow> 'v \<Rightarrow> ('k, 'v) lru \<Rightarrow> (bool \<times> ('k, 'v) lru) option" where
  "insert_or_assign key val c =
     (case lru_map c key of
        Some map_iter \<Rightarrow>
          (case update_second map_iter (\<lambda>_. val) (lru_list c) of
             None \<Rightarrow> None
           | Some xs \<Rightarrow>
               (case u_promote map_iter (c\<lparr>lru_list := xs\<rparr>) of
                  None \<Rightarrow> None
                | Some c' \<Rightarrow> Some (False, c')))
      | None \<Rightarrow> (case u_insert key val c of None \<Rightarrow> None | Some c' \<Rightarrow> Some (True, c')))"

definition resize :: "nat \<Rightarrow> ('k, 'v) lru \<Rightarrow> ('k, 'v) lru option" where
  "resize capacity c =
     (case u_prune capacity c of
        None \<Rightarrow> None
      | Some c' \<Rightarrow> Some (c'\<lparr>lru_capacity := capacity\<rparr>))"

text \<open>
  \<^verbatim>\<open>for_each\<close> hands every pair to \<^verbatim>\<open>func\<close> by reference, from \<^verbatim>\<open>begin()\<close> to \<^verbatim>\<open>end()\<close>. The key
  of a pair is \<^verbatim>\<open>const\<close>, so \<^verbatim>\<open>func\<close> is what it does to the value, given the key.
\<close>

definition for_each :: "('k \<Rightarrow> 'v \<Rightarrow> 'v) \<Rightarrow> ('k, 'v) lru \<Rightarrow> ('k, 'v) lru option" where
  "for_each func c =
     Some (c\<lparr>lru_list := map (\<lambda>n. Node (addr n) (first n) (func (first n) (second n))) (lru_list c)\<rparr>)"

definition try_update :: "'k \<Rightarrow> ('v \<Rightarrow> 'v) \<Rightarrow> ('k, 'v) lru \<Rightarrow> (bool \<times> ('k, 'v) lru) option" where
  "try_update key func c =
     (case lru_find key c of
        None \<Rightarrow> None
      | Some (iter, c') \<Rightarrow>
          (if iter = lru_end c' then Some (False, c')
           else (case update_second iter func (lru_list c') of
                   None \<Rightarrow> None
                 | Some xs \<Rightarrow> Some (True, c'\<lparr>lru_list := xs\<rparr>))))"

text \<open>
  \<^verbatim>\<open>get\<close> returns a reference to the stored value and \<^verbatim>\<open>get_copy\<close> a copy of it; both are
  the value read through the iterator after the promotion.
\<close>

definition get :: "'k \<Rightarrow> ('k, 'v) lru \<Rightarrow> ('v option \<times> ('k, 'v) lru) option" where
  "get key c =
     (case lru_map c key of
        None \<Rightarrow> Some (None, c)
      | Some iter \<Rightarrow>
          (case u_promote iter c of
             None \<Rightarrow> None
           | Some c' \<Rightarrow>
               (case deref iter (lru_list c') of
                  None \<Rightarrow> None
                | Some n \<Rightarrow> Some (Some (second n), c'))))"

definition get_copy :: "'k \<Rightarrow> ('k, 'v) lru \<Rightarrow> ('v option \<times> ('k, 'v) lru) option" where
  "get_copy key c =
     (case lru_map c key of
        None \<Rightarrow> Some (None, c)
      | Some iter \<Rightarrow>
          (case u_promote iter c of
             None \<Rightarrow> None
           | Some c' \<Rightarrow>
               (case deref iter (lru_list c') of
                  None \<Rightarrow> None
                | Some n \<Rightarrow> Some (Some (second n), c'))))"

definition clear :: "('k, 'v) lru \<Rightarrow> ('k, 'v) lru option" where
  "clear c = Some (c\<lparr>lru_map := Map.empty, lru_list := []\<rparr>)"

section \<open>The smaller cache of \<^verbatim>\<open>src/lru.h\<close>\<close>

text \<open>
  The class of \<^verbatim>\<open>src/lru.h\<close> has the same three members and is modelled on the same
  record. Its member functions are translated from that file on their own, under the
  prefix \<open>small_\<close>. It has no \<^verbatim>\<open>get\<close> and no \<^verbatim>\<open>get_copy\<close>.
\<close>

definition small_ctor :: "nat \<Rightarrow> ('k, 'v) lru" where
  "small_ctor capacity = \<lparr>lru_map = Map.empty, lru_list = [], lru_capacity = capacity\<rparr>"

definition small_begin :: "('k, 'v) lru \<Rightarrow> iterator" where
  "small_begin c = list_begin (lru_list c)"

definition small_end :: "('k, 'v) lru \<Rightarrow> iterator" where
  "small_end c = End"

definition small_empty :: "('k, 'v) lru \<Rightarrow> bool" where
  "small_empty c = (lru_list c = [])"

definition small_size :: "('k, 'v) lru \<Rightarrow> nat" where
  "small_size c = length (lru_list c)"

definition small_max_size :: "('k, 'v) lru \<Rightarrow> nat" where
  "small_max_size c = lru_capacity c"

definition small_u_contains :: "'k \<Rightarrow> ('k, 'v) lru \<Rightarrow> bool" where
  "small_u_contains key c = (lru_map c key \<noteq> None)"

definition small_u_promote :: "iterator \<Rightarrow> ('k, 'v) lru \<Rightarrow> ('k, 'v) lru option" where
  "small_u_promote iter c =
     (if iter \<noteq> list_begin (lru_list c)
      then (case splice_begin iter (lru_list c) of
              None \<Rightarrow> None
            | Some xs \<Rightarrow> Some (c\<lparr>lru_list := xs\<rparr>))
      else Some c)"

definition small_u_evict :: "('k, 'v) lru \<Rightarrow> ('k, 'v) lru option" where
  "small_u_evict c =
     (case list_back (lru_list c) of
        None \<Rightarrow> None
      | Some n \<Rightarrow>
          (case list_pop_back (lru_list c) of
             None \<Rightarrow> None
           | Some xs \<Rightarrow> Some (c\<lparr>lru_map := (lru_map c)(first n := None), lru_list := xs\<rparr>)))"

function small_u_prune :: "nat \<Rightarrow> ('k, 'v) lru \<Rightarrow> ('k, 'v) lru option" where
  "small_u_prune capacity c =
     (if length (lru_list c) > capacity
      then (case small_u_evict c of None \<Rightarrow> None | Some c' \<Rightarrow> small_u_prune capacity c')
      else Some c)"
  by pat_completeness auto
termination
  by (relation "measure (\<lambda>(capacity, c). length (lru_list c))")
     (auto simp: small_u_evict_def list_back_def list_pop_back_def split: if_splits)

declare small_u_prune.simps [simp del]

definition small_u_insert :: "'k \<Rightarrow> 'v \<Rightarrow> ('k, 'v) lru \<Rightarrow> ('k, 'v) lru option" where
  "small_u_insert key val c =
     (let c1 = c\<lparr>lru_list := emplace_begin key val (lru_list c)\<rparr>;
          c2 = c1\<lparr>lru_map := (lru_map c1)(key \<mapsto> list_begin (lru_list c1))\<rparr>
      in small_u_prune (lru_capacity c2) c2)"

definition small_find :: "'k \<Rightarrow> ('k, 'v) lru \<Rightarrow> (iterator \<times> ('k, 'v) lru) option" where
  "small_find key c =
     (case lru_map c key of
        None \<Rightarrow> Some (small_end c, c)
      | Some iter \<Rightarrow>
          (case small_u_promote iter c of None \<Rightarrow> None | Some c' \<Rightarrow> Some (iter, c')))"

definition small_contains :: "'k \<Rightarrow> ('k, 'v) lru \<Rightarrow> (bool \<times> ('k, 'v) lru) option" where
  "small_contains key c =
     (case small_find key c of
        None \<Rightarrow> None
      | Some (iter, c') \<Rightarrow> Some (iter \<noteq> small_end c', c'))"

definition small_insert :: "'k \<Rightarrow> 'v \<Rightarrow> ('k, 'v) lru \<Rightarrow> (bool \<times> ('k, 'v) lru) option" where
  "small_insert key val c =
     (if small_u_contains key c then Some (False, c)
      else (case small_u_insert key val c of None \<Rightarrow> None | Some c' \<Rightarrow> Some (True, c')))"

definition small_insert_or_assign ::
  "'k \<Rightarrow> 'v \<Rightarrow> ('k, 'v) lru \<Rightarrow> (bool \<times> ('k, 'v) lru) option" where
  "small_insert_or_assign key val c =
     (case lru_map c key of
        Some map_iter \<Rightarrow>
          (case update_second map_iter (\<lambda>_. val) (lru_list c) of
             None \<Rightarrow> None
           | Some xs \<Rightarrow>
               (case small_u_promote map_iter (c\<lparr>lru_list := xs\<rparr>) of
                  None \<Rightarrow> None
                | Some c' \<Rightarrow> Some (False, c')))
      | None \<Rightarrow> (case small_u_insert key val c of None \<Rightarrow> None | Some c' \<Rightarrow> Some (True, c')))"

definition small_resize :: "nat \<Rightarrow> ('k, 'v) lru \<Rightarrow> ('k, 'v) lru option" where
  "small_resize capacity c =
     (case small_u_prune capacity c of
        None \<Rightarrow> None
      | Some c' \<Rightarrow> Some (c'\<lparr>lru_capacity := capacity\<rparr>))"

definition small_for_each :: "('k \<Rightarrow> 'v \<Rightarrow> 'v) \<Rightarrow> ('k, 'v) lru \<Rightarrow> ('k, 'v) lru option" where
  "small_for_each func c =
     Some (c\<lparr>lru_list := map (\<lambda>n. Node (addr n) (first n) (func (first n) (second n))) (lru_list c)\<rparr>)"

definition small_try_update ::
  "'k \<Rightarrow> ('v \<Rightarrow> 'v) \<Rightarrow> ('k, 'v) lru \<Rightarrow> (bool \<times> ('k, 'v) lru) option" where
  "small_try_update key func c =
     (case small_find key c of
        None \<Rightarrow> None
      | Some (iter, c') \<Rightarrow>
          (if iter = small_end c' then Some (False, c')
           else (case update_second iter func (lru_list c') of
                   None \<Rightarrow> None
                 | Some xs \<Rightarrow> Some (True, c'\<lparr>lru_list := xs\<rparr>))))"

definition small_clear :: "('k, 'v) lru \<Rightarrow> ('k, 'v) lru option" where
  "small_clear c = Some (c\<lparr>lru_map := Map.empty, lru_list := []\<rparr>)"

section \<open>Sequences of calls\<close>

text \<open>
  A client of the cache is a sequence of calls of public member functions. \<open>call\<close> lists
  the member functions the two classes share, \<open>op\<close> adds the two that only
  \<^verbatim>\<open>src/include/lru.h\<close> has. A call returns its result and the state it leaves.
\<close>

datatype ('k, 'v) call =
    Insert 'k 'v
  | Insert_or_assign 'k 'v
  | Find 'k
  | Contains 'k
  | Try_update 'k "'v \<Rightarrow> 'v"
  | For_each "'k \<Rightarrow> 'v \<Rightarrow> 'v"
  | Resize nat
  | Clear
  | Size
  | Empty
  | Max_size
  | Begin_iter
  | End_iter

datatype ('k, 'v) op = Common "('k, 'v) call" | Get 'k | Get_copy 'k

datatype 'v result = R_bool bool | R_iter iterator | R_opt "'v option" | R_void | R_size nat

definition returning ::
  "('a \<Rightarrow> 'v result) \<Rightarrow> ('a \<times> ('k, 'v) lru) option \<Rightarrow> ('v result \<times> ('k, 'v) lru) option" where
  "returning f x = (case x of None \<Rightarrow> None | Some (r, c) \<Rightarrow> Some (f r, c))"

definition returning_void ::
  "('k, 'v) lru option \<Rightarrow> ('v result \<times> ('k, 'v) lru) option" where
  "returning_void x = (case x of None \<Rightarrow> None | Some c \<Rightarrow> Some (R_void, c))"

fun call_step :: "('k, 'v) call \<Rightarrow> ('k, 'v) lru \<Rightarrow> ('v result \<times> ('k, 'v) lru) option" where
  "call_step (Insert k v) c = returning R_bool (lru_insert k v c)"
| "call_step (Insert_or_assign k v) c = returning R_bool (insert_or_assign k v c)"
| "call_step (Find k) c = returning R_iter (lru_find k c)"
| "call_step (Contains k) c = returning R_bool (contains k c)"
| "call_step (Try_update k f) c = returning R_bool (try_update k f c)"
| "call_step (For_each f) c = returning_void (for_each f c)"
| "call_step (Resize n) c = returning_void (resize n c)"
| "call_step Clear c = returning_void (clear c)"
| "call_step Size c = Some (R_size (lru_size c), c)"
| "call_step Empty c = Some (R_bool (lru_empty c), c)"
| "call_step Max_size c = Some (R_size (max_size c), c)"
| "call_step Begin_iter c = Some (R_iter (lru_begin c), c)"
| "call_step End_iter c = Some (R_iter (lru_end c), c)"

fun step :: "('k, 'v) op \<Rightarrow> ('k, 'v) lru \<Rightarrow> ('v result \<times> ('k, 'v) lru) option" where
  "step (Common a) c = call_step a c"
| "step (Get k) c = returning R_opt (get k c)"
| "step (Get_copy k) c = returning R_opt (get_copy k c)"

fun run :: "('k, 'v) op list \<Rightarrow> ('k, 'v) lru \<Rightarrow> ('v result list \<times> ('k, 'v) lru) option" where
  "run [] c = Some ([], c)"
| "run (a # as) c =
     (case step a c of
        None \<Rightarrow> None
      | Some (r, c') \<Rightarrow>
          (case run as c' of None \<Rightarrow> None | Some (rs, c'') \<Rightarrow> Some (r # rs, c'')))"

fun small_step :: "('k, 'v) call \<Rightarrow> ('k, 'v) lru \<Rightarrow> ('v result \<times> ('k, 'v) lru) option" where
  "small_step (Insert k v) c = returning R_bool (small_insert k v c)"
| "small_step (Insert_or_assign k v) c = returning R_bool (small_insert_or_assign k v c)"
| "small_step (Find k) c = returning R_iter (small_find k c)"
| "small_step (Contains k) c = returning R_bool (small_contains k c)"
| "small_step (Try_update k f) c = returning R_bool (small_try_update k f c)"
| "small_step (For_each f) c = returning_void (small_for_each f c)"
| "small_step (Resize n) c = returning_void (small_resize n c)"
| "small_step Clear c = returning_void (small_clear c)"
| "small_step Size c = Some (R_size (small_size c), c)"
| "small_step Empty c = Some (R_bool (small_empty c), c)"
| "small_step Max_size c = Some (R_size (small_max_size c), c)"
| "small_step Begin_iter c = Some (R_iter (small_begin c), c)"
| "small_step End_iter c = Some (R_iter (small_end c), c)"

fun small_run ::
  "('k, 'v) call list \<Rightarrow> ('k, 'v) lru \<Rightarrow> ('v result list \<times> ('k, 'v) lru) option" where
  "small_run [] c = Some ([], c)"
| "small_run (a # as) c =
     (case small_step a c of
        None \<Rightarrow> None
      | Some (r, c') \<Rightarrow>
          (case small_run as c' of None \<Rightarrow> None | Some (rs, c'') \<Rightarrow> Some (r # rs, c'')))"

section \<open>Well-formed states\<close>

text \<open>
  The recency order of a state is the sequence of its keys from the head of the list to
  its tail.
\<close>

definition keys_of :: "('k, 'v) lru \<Rightarrow> 'k list" where
  "keys_of c = map first (lru_list c)"

definition entries_of :: "('k, 'v) lru \<Rightarrow> ('k \<times> 'v) list" where
  "entries_of c = map (\<lambda>n. (first n, second n)) (lru_list c)"

text \<open>
  In a well-formed state the nodes have distinct addresses and distinct keys, the map
  sends the key of every node to the iterator of that node, and it has no other key.
\<close>

definition lru_inv :: "('k, 'v) lru \<Rightarrow> bool" where
  "lru_inv c \<longleftrightarrow>
     distinct (map addr (lru_list c)) \<and>
     distinct (map first (lru_list c)) \<and>
     (\<forall>n \<in> set (lru_list c). lru_map c (first n) = Some (At (addr n))) \<and>
     (\<forall>k. lru_map c k \<noteq> None \<longrightarrow> k \<in> first ` set (lru_list c))"

text \<open>The bound \<^verbatim>\<open>size() <= max_size()\<close>.\<close>

definition within :: "('k, 'v) lru \<Rightarrow> bool" where
  "within c \<longleftrightarrow> lru_size c \<le> max_size c"

text \<open>
  The correspondence between the index and the list, in the words of the specification:
  every key of the map is the key of exactly one node, the mapped iterator designates
  that node, every node's key is in the map, and no two nodes share an address.
\<close>

definition bijection :: "('k, 'v) lru \<Rightarrow> bool" where
  "bijection c \<longleftrightarrow>
     (\<forall>k it. lru_map c k = Some it \<longrightarrow>
        (\<exists>n. deref it (lru_list c) = Some n \<and> first n = k) \<and>
        length (filter (\<lambda>n. first n = k) (lru_list c)) = 1) \<and>
     (\<forall>n \<in> set (lru_list c). lru_map c (first n) \<noteq> None) \<and>
     distinct (map addr (lru_list c))"

text \<open>The calls that promote or insert an entry, and the calls that remove entries.\<close>

fun may_reorder :: "('k, 'v) op \<Rightarrow> bool" where
  "may_reorder (Common (Insert k v)) = True"
| "may_reorder (Common (Insert_or_assign k v)) = True"
| "may_reorder (Common (Find k)) = True"
| "may_reorder (Common (Contains k)) = True"
| "may_reorder (Common (Try_update k f)) = True"
| "may_reorder (Get k) = True"
| "may_reorder (Get_copy k) = True"
| "may_reorder a = False"

fun shrinks :: "('k, 'v) op \<Rightarrow> bool" where
  "shrinks (Common (Resize n)) = True"
| "shrinks (Common Clear) = True"
| "shrinks a = False"

section \<open>Evaluation\<close>

lemmas lru_eval =
  lru_ctor_def lru_insert_def u_contains_def u_insert_def u_prune.simps u_evict_def u_promote_def
  emplace_begin_def list_begin_def splice_begin_def update_second_def deref_def
  list_back_def list_pop_back_def lru_find_def contains_def insert_or_assign_def resize_def
  for_each_def try_update_def get_def get_copy_def clear_def returning_def returning_void_def
  lru_end_def lru_begin_def lru_size_def lru_empty_def max_size_def keys_of_def entries_of_def
  Let_def

section \<open>The list primitives\<close>

lemma fresh_gt: "n \<in> set xs \<Longrightarrow> addr n < fresh xs"
  by (induction xs) auto

lemma fresh_notin: "fresh xs \<notin> addr ` set xs"
  using fresh_gt by fastforce

lemma find_addr:
  "distinct (map addr xs) \<Longrightarrow> n \<in> set xs \<Longrightarrow> find (\<lambda>m. addr m = addr n) xs = Some n"
  by (induction xs) (auto simp: image_iff)

lemma deref_At: "distinct (map addr xs) \<Longrightarrow> n \<in> set xs \<Longrightarrow> deref (At (addr n)) xs = Some n"
  by (simp add: deref_def find_addr)

lemma deref_Some: "deref it xs = Some n \<Longrightarrow> n \<in> set xs \<and> it = At (addr n)"
  by (auto simp: deref_def find_Some_iff split: iterator.splits)

lemma filter_addr_hd:
  "distinct (map addr (n # xs)) \<Longrightarrow> filter (\<lambda>m. addr m \<noteq> addr n) xs = xs"
  by (auto simp: filter_id_conv image_iff)

lemma u_promote_char:
  assumes "distinct (map addr (lru_list c))" and "n \<in> set (lru_list c)"
  shows "u_promote (At (addr n)) c =
           Some (c\<lparr>lru_list := n # filter (\<lambda>m. addr m \<noteq> addr n) (lru_list c)\<rparr>)"
proof (cases "At (addr n) = list_begin (lru_list c)")
  case True
  then obtain x xs where l: "lru_list c = x # xs" and ax: "addr x = addr n"
    by (auto simp: list_begin_def split: list.splits)
  with assms have "x = n"
    by (auto simp: image_iff)
  with l assms(1) have "n # filter (\<lambda>m. addr m \<noteq> addr n) (lru_list c) = lru_list c"
    by (simp add: filter_addr_hd)
  with True show ?thesis
    by (simp add: u_promote_def)
next
  case False
  with assms show ?thesis
    by (simp add: u_promote_def splice_begin_def deref_At)
qed

lemma u_evict_char:
  "lru_list c \<noteq> [] \<Longrightarrow>
   u_evict c = Some (c\<lparr>lru_map := (lru_map c)(first (last (lru_list c)) := None),
                       lru_list := butlast (lru_list c)\<rparr>)"
  by (simp add: u_evict_def list_back_def list_pop_back_def)

lemma u_prune_char:
  "u_prune k c =
     Some (c\<lparr>lru_map := (\<lambda>x. if x \<in> first ` set (drop k (lru_list c)) then None else lru_map c x),
             lru_list := take k (lru_list c)\<rparr>)"
proof (induction k c rule: u_prune.induct)
  case (1 k c)
  show ?case
  proof (cases "k < length (lru_list c)")
    case False
    then show ?thesis
      by (subst u_prune.simps) simp
  next
    case True
    let ?l = "lru_list c"
    let ?c' = "c\<lparr>lru_map := (lru_map c)(first (last ?l) := None), lru_list := butlast ?l\<rparr>"
    from True have ne: "?l \<noteq> []" by auto
    then have ev: "u_evict c = Some ?c'" by (rule u_evict_char)
    from True have dr: "drop k ?l = drop k (butlast ?l) @ [last ?l]"
      by (metis append_butlast_last_id drop_append length_butlast ne  Suc_diff_1 Suc_leI diff_is_0_eq' drop_0 le_simps(3) length_greater_0_conv linorder_not_less)
    from True have tk: "take k (butlast ?l) = take k ?l"
      by (simp add: take_butlast)
    have "u_prune k c = u_prune k ?c'"
      using True ev by (subst u_prune.simps) simp
    also have "\<dots> = Some (?c'\<lparr>lru_map := (\<lambda>x. if x \<in> first ` set (drop k (lru_list ?c')) then None else lru_map ?c' x),
             lru_list := take k (lru_list ?c')\<rparr>)"
      using "1.IH"[OF True ev] .
    also have "\<dots> = Some (c\<lparr>lru_map := (\<lambda>x. if x \<in> first ` set (drop k ?l) then None else lru_map c x),
             lru_list := take k ?l\<rparr>)"
      by (auto simp: tk dr fun_eq_iff)
    finally show ?thesis .
  qed
qed


lemma u_insert_char:
  "u_insert k v c =
     Some (c\<lparr>lru_map := (\<lambda>x. if x \<in> first ` set (drop (lru_capacity c) (Node (fresh (lru_list c)) k v # lru_list c))
                              then None else ((lru_map c)(k \<mapsto> At (fresh (lru_list c)))) x),
             lru_list := take (lru_capacity c) (Node (fresh (lru_list c)) k v # lru_list c)\<rparr>)"
  by (simp add: u_insert_def Let_def u_prune_char emplace_begin_def list_begin_def cong: if_cong)

lemma inv_ctor: "lru_inv (lru_ctor C)"
  by (simp add: lru_inv_def lru_ctor_def)

lemma same_addr_same_node:
  "distinct (map addr xs) \<Longrightarrow> n \<in> set xs \<Longrightarrow> m \<in> set xs \<Longrightarrow> addr m = addr n \<Longrightarrow> m = n"
  by (meson distinct_map inj_onD)

lemma same_key_same_node:
  "distinct (map first xs) \<Longrightarrow> n \<in> set xs \<Longrightarrow> m \<in> set xs \<Longrightarrow> first m = first n \<Longrightarrow> m = n"
  by (meson distinct_map inj_onD)

lemma filter_addr_key:
  assumes "distinct (map addr xs)" "distinct (map first xs)" "n \<in> set xs"
  shows "filter (\<lambda>m. addr m \<noteq> addr n) xs = filter (\<lambda>m. first m \<noteq> first n) xs"
proof (rule filter_cong[OF refl])
  fix m assume "m \<in> set xs"
  with assms show "(addr m \<noteq> addr n) = (first m \<noteq> first n)"
    using same_addr_same_node same_key_same_node by metis
qed

lemma set_to_head:
  "distinct (map addr xs) \<Longrightarrow> n \<in> set xs \<Longrightarrow> set (n # filter (\<lambda>m. addr m \<noteq> addr n) xs) = set xs"
  using same_addr_same_node by fastforce

lemma inv_to_head:
  assumes "lru_inv c" "n \<in> set (lru_list c)"
  shows "lru_inv (c\<lparr>lru_list := n # filter (\<lambda>m. addr m \<noteq> addr n) (lru_list c)\<rparr>)"
proof -
  let ?l = "lru_list c"
  let ?F = "filter (\<lambda>m. addr m \<noteq> addr n) ?l"
  from assms have da: "distinct (map addr ?l)" and dk: "distinct (map first ?l)"
    by (simp_all add: lru_inv_def)
  have s: "set (n # ?F) = set ?l"
    using da assms(2) by (rule set_to_head)
  have 1: "distinct (map addr (n # ?F))"
    using da by (auto simp: distinct_map_filter)
  have "first n \<notin> first ` set ?F"
    using same_key_same_node[OF dk assms(2)] by auto
  then have 2: "distinct (map first (n # ?F))"
    using dk by (simp add: distinct_map_filter)
  from assms(1) have 3: "\<forall>m \<in> set ?l. lru_map c (first m) = Some (At (addr m))"
    and 4: "\<forall>k. lru_map c k \<noteq> None \<longrightarrow> k \<in> first ` set ?l"
    by (simp_all add: lru_inv_def)
  show ?thesis
    unfolding lru_inv_def using 1 2 3 4 s by (simp del: list.set)
qed

lemma inv_values:
  assumes "lru_inv c" "\<And>m. addr (g m) = addr m" "\<And>m. first (g m) = first m"
  shows "lru_inv (c\<lparr>lru_list := map g (lru_list c)\<rparr>)"
proof -
  have "addr \<circ> g = addr" "first \<circ> g = first"
    using assms(2,3) by (simp_all add: fun_eq_iff)
  moreover have "first ` g ` set (lru_list c) = first ` set (lru_list c)"
    using assms(3) by (simp add: image_image)
  ultimately show ?thesis
    using assms by (simp add: lru_inv_def)
qed

lemma inv_prune:
  assumes "lru_inv c"
  shows "lru_inv (c\<lparr>lru_map := (\<lambda>x. if x \<in> first ` set (drop k (lru_list c)) then None else lru_map c x),
                    lru_list := take k (lru_list c)\<rparr>)"
proof -
  let ?l = "lru_list c"
  from assms have da: "distinct (map addr ?l)" and dk: "distinct (map first ?l)"
    and 3: "\<forall>m \<in> set ?l. lru_map c (first m) = Some (At (addr m))"
    and 4: "\<forall>x. lru_map c x \<noteq> None \<longrightarrow> x \<in> first ` set ?l"
    by (simp_all add: lru_inv_def)
  have "distinct (map first (take k ?l @ drop k ?l))" using dk by simp
  then have disj: "first ` set (take k ?l) \<inter> first ` set (drop k ?l) = {}"
    unfolding map_append distinct_append by simp
  have un: "set ?l = set (take k ?l) \<union> set (drop k ?l)"
    by (metis append_take_drop_id set_append)
  have 1: "distinct (map addr (take k ?l))" using da by (simp add: take_map[symmetric])
  have 2: "distinct (map first (take k ?l))" using dk by (simp add: take_map[symmetric])
  have m3: "\<forall>m \<in> set (take k ?l). first m \<notin> first ` set (drop k ?l) \<and> lru_map c (first m) = Some (At (addr m))"
    using 3 disj un by blast
  have m4: "\<forall>x. x \<notin> first ` set (drop k ?l) \<and> lru_map c x \<noteq> None \<longrightarrow> x \<in> first ` set (take k ?l)"
    using 4 un by blast
  show ?thesis
    unfolding lru_inv_def using 1 2 m3 m4 by simp
qed

lemma inv_emplace:
  assumes "lru_inv c" "lru_map c k = None"
  shows "lru_inv (c\<lparr>lru_map := (lru_map c)(k \<mapsto> At (fresh (lru_list c))),
                    lru_list := Node (fresh (lru_list c)) k v # lru_list c\<rparr>)"
proof -
  let ?l = "lru_list c"
  from assms have da: "distinct (map addr ?l)" and dk: "distinct (map first ?l)"
    and 3: "\<forall>m \<in> set ?l. lru_map c (first m) = Some (At (addr m))"
    and 4: "\<forall>x. lru_map c x \<noteq> None \<longrightarrow> x \<in> first ` set ?l"
    by (simp_all add: lru_inv_def)
  from 3 assms(2) have nk: "k \<notin> first ` set ?l" by force
  show ?thesis
    unfolding lru_inv_def using da dk 3 4 nk fresh_notin[of ?l] by auto
qed


lemma filter_update:
  "filter (\<lambda>m. addr m \<noteq> a) (map (\<lambda>m. if addr m = a then Node (addr m) (first m) (f (second m)) else m) xs) =
   filter (\<lambda>m. addr m \<noteq> a) xs"
  by (induction xs) auto

lemma update_mem:
  "n \<in> set xs \<Longrightarrow>
   Node (addr n) (first n) (f (second n)) \<in>
     set (map (\<lambda>m. if addr m = addr n then Node (addr m) (first m) (f (second m)) else m) xs)"
  by (auto simp: image_iff intro!: bexI[of _ n])

lemma inv_touch:
  assumes "lru_inv c" "n \<in> set (lru_list c)"
  shows "lru_inv (c\<lparr>lru_list := Node (addr n) (first n) w # filter (\<lambda>m. addr m \<noteq> addr n) (lru_list c)\<rparr>)"
proof -
  let ?g = "\<lambda>m. if addr m = addr n then Node (addr m) (first m) ((\<lambda>_. w) (second m)) else m"
  let ?c = "c\<lparr>lru_list := map ?g (lru_list c)\<rparr>"
  have i: "lru_inv ?c"
    using assms(1) by (rule inv_values) simp_all
  have m: "Node (addr n) (first n) w \<in> set (lru_list ?c)"
    using update_mem[OF assms(2), of "\<lambda>_. w"] by simp
  show ?thesis
    using inv_to_head[OF i m] filter_update[of "addr n" "\<lambda>_. w" "lru_list c"] by simp
qed

lemma inv_lookup:
  "lru_inv c \<Longrightarrow> lru_map c k = Some it \<Longrightarrow>
   \<exists>n \<in> set (lru_list c). first n = k \<and> it = At (addr n)"
  unfolding lru_inv_def by force

lemma inv_absent:
  "lru_inv c \<Longrightarrow> lru_map c k = None \<Longrightarrow> k \<notin> first ` set (lru_list c)"
  unfolding lru_inv_def by force

lemma inv_present:
  "lru_inv c \<Longrightarrow> n \<in> set (lru_list c) \<Longrightarrow> lru_map c (first n) = Some (At (addr n))"
  unfolding lru_inv_def by simp

lemma inv_distinct_addr: "lru_inv c \<Longrightarrow> distinct (map addr (lru_list c))"
  unfolding lru_inv_def by simp

lemma find_present:
  assumes "lru_inv c" "n \<in> set (lru_list c)"
  shows "lru_find (first n) c =
           Some (At (addr n), c\<lparr>lru_list := n # filter (\<lambda>m. addr m \<noteq> addr n) (lru_list c)\<rparr>)"
  using assms by (simp add: lru_find_def inv_present u_promote_char inv_distinct_addr)

lemma find_absent: "lru_map c k = None \<Longrightarrow> lru_find k c = Some (End, c)"
  by (simp add: lru_find_def lru_end_def)

lemma contains_present:
  assumes "lru_inv c" "n \<in> set (lru_list c)"
  shows "contains (first n) c =
           Some (True, c\<lparr>lru_list := n # filter (\<lambda>m. addr m \<noteq> addr n) (lru_list c)\<rparr>)"
  using assms by (simp add: contains_def find_present lru_end_def)

lemma contains_absent: "lru_map c k = None \<Longrightarrow> contains k c = Some (False, c)"
  by (simp add: contains_def find_absent lru_end_def)

lemma get_present:
  assumes "lru_inv c" "n \<in> set (lru_list c)"
  shows "get (first n) c =
           Some (Some (second n), c\<lparr>lru_list := n # filter (\<lambda>m. addr m \<noteq> addr n) (lru_list c)\<rparr>)"
  using assms by (simp add: get_def inv_present u_promote_char inv_distinct_addr deref_def)

lemma get_absent: "lru_map c k = None \<Longrightarrow> get k c = Some (None, c)"
  by (simp add: get_def)

lemma get_copy_present:
  assumes "lru_inv c" "n \<in> set (lru_list c)"
  shows "get_copy (first n) c =
           Some (Some (second n), c\<lparr>lru_list := n # filter (\<lambda>m. addr m \<noteq> addr n) (lru_list c)\<rparr>)"
  using assms by (simp add: get_copy_def inv_present u_promote_char inv_distinct_addr deref_def)

lemma get_copy_absent: "lru_map c k = None \<Longrightarrow> get_copy k c = Some (None, c)"
  by (simp add: get_copy_def)

lemma filter_neq_id: "\<forall>m \<in> set xs. addr m \<noteq> a \<Longrightarrow>
    map (\<lambda>m. if addr m = a then Node (addr m) (first m) (f (second m)) else m) xs = xs"
  by (induction xs) auto

lemma try_update_present:
  assumes "lru_inv c" "n \<in> set (lru_list c)"
  shows "try_update (first n) f c =
           Some (True, c\<lparr>lru_list := Node (addr n) (first n) (f (second n)) #
                                      filter (\<lambda>m. addr m \<noteq> addr n) (lru_list c)\<rparr>)"
  using assms
  by (simp add: try_update_def find_present lru_end_def update_second_def deref_def filter_neq_id)

lemma try_update_absent: "lru_map c k = None \<Longrightarrow> try_update k f c = Some (False, c)"
  by (simp add: try_update_def find_absent lru_end_def)

lemma insert_or_assign_present:
  assumes "lru_inv c" "n \<in> set (lru_list c)"
  shows "insert_or_assign (first n) v c =
           Some (False, c\<lparr>lru_list := Node (addr n) (first n) v #
                                       filter (\<lambda>m. addr m \<noteq> addr n) (lru_list c)\<rparr>)"
proof -
  let ?g = "\<lambda>m. if addr m = addr n then Node (addr m) (first m) ((\<lambda>_. v) (second m)) else m"
  let ?c = "c\<lparr>lru_list := map ?g (lru_list c)\<rparr>"
  have da: "distinct (map addr (lru_list c))"
    using assms(1) by (rule inv_distinct_addr)
  have "lru_inv ?c"
    using assms(1) by (rule inv_values) simp_all
  then have d: "distinct (map addr (lru_list ?c))"
    by (rule inv_distinct_addr)
  have m: "Node (addr n) (first n) v \<in> set (lru_list ?c)"
    using update_mem[OF assms(2), of "\<lambda>_. v"] by simp
  have u: "update_second (At (addr n)) (\<lambda>_. v) (lru_list c) = Some (map ?g (lru_list c))"
    using da assms(2) by (simp add: update_second_def deref_At)
  show ?thesis
    using u_promote_char[OF d m] u assms filter_update[of "addr n" "\<lambda>_. v" "lru_list c"]
    by (simp add: insert_or_assign_def inv_present)
qed

lemma insert_present:
  "lru_inv c \<Longrightarrow> n \<in> set (lru_list c) \<Longrightarrow> lru_insert (first n) v c = Some (False, c)"
  by (simp add: lru_insert_def u_contains_def inv_present)

lemma insert_absent:
  "lru_map c k = None \<Longrightarrow>
   lru_insert k v c =
     Some (True,
       c\<lparr>lru_map := (\<lambda>x. if x \<in> first ` set (drop (lru_capacity c) (Node (fresh (lru_list c)) k v # lru_list c))
                              then None else ((lru_map c)(k \<mapsto> At (fresh (lru_list c)))) x),
             lru_list := take (lru_capacity c) (Node (fresh (lru_list c)) k v # lru_list c)\<rparr>)"
  by (simp add: lru_insert_def u_contains_def u_insert_char)

lemma insert_or_assign_absent:
  "lru_map c k = None \<Longrightarrow>
   insert_or_assign k v c =
     Some (True,
       c\<lparr>lru_map := (\<lambda>x. if x \<in> first ` set (drop (lru_capacity c) (Node (fresh (lru_list c)) k v # lru_list c))
                              then None else ((lru_map c)(k \<mapsto> At (fresh (lru_list c)))) x),
             lru_list := take (lru_capacity c) (Node (fresh (lru_list c)) k v # lru_list c)\<rparr>)"
  by (simp add: insert_or_assign_def u_insert_char)

lemma inv_insert:
  assumes "lru_inv c" "lru_map c k = None"
  shows "lru_inv (c\<lparr>lru_map := (\<lambda>x. if x \<in> first ` set (drop (lru_capacity c) (Node (fresh (lru_list c)) k v # lru_list c))
                              then None else ((lru_map c)(k \<mapsto> At (fresh (lru_list c)))) x),
             lru_list := take (lru_capacity c) (Node (fresh (lru_list c)) k v # lru_list c)\<rparr>)"
  using inv_prune[OF inv_emplace[OF assms, of v], of "lru_capacity c"] by (simp cong: if_cong)

lemma resize_char:
  "resize k c =
     Some (c\<lparr>lru_map := (\<lambda>x. if x \<in> first ` set (drop k (lru_list c)) then None else lru_map c x),
             lru_list := take k (lru_list c), lru_capacity := k\<rparr>)"
  by (simp add: resize_def u_prune_char)


lemma filter_addr_remove1:
  "distinct (map addr xs) \<Longrightarrow> n \<in> set xs \<Longrightarrow> filter (\<lambda>m. addr m \<noteq> addr n) xs = remove1 n xs"
proof (induction xs)
  case Nil
  then show ?case by simp
next
  case (Cons x xs)
  show ?case
  proof (cases "x = n")
    case True
    with Cons.prems(1) show ?thesis
      using filter_addr_hd[of n xs] by simp
  next
    case False
    with Cons.prems have "n \<in> set xs" "addr x \<noteq> addr n"
      by (auto simp: image_iff)
    with Cons False show ?thesis by simp
  qed
qed

lemma length_to_head:
  "distinct (map addr xs) \<Longrightarrow> n \<in> set xs \<Longrightarrow>
   Suc (length (filter (\<lambda>m. addr m \<noteq> addr n) xs)) = length xs"
  using length_pos_if_in_set[of n xs] by (simp add: filter_addr_remove1 length_remove1)

lemma keyed_cases [consumes 1, case_names absent present]:
  assumes "lru_inv c"
  obtains (absent) "lru_map c k = None"
    | (present) n where "n \<in> set (lru_list c)" "first n = k"
proof (cases "lru_map c k")
  case None
  then show ?thesis by (rule absent)
next
  case (Some it)
  from inv_lookup[OF assms Some] obtain n where "n \<in> set (lru_list c)" "first n = k"
    by blast
  then show ?thesis by (rule present)
qed

lemma within_to_head:
  assumes "lru_inv c" "n \<in> set (lru_list c)" "within c"
  shows "within (c\<lparr>lru_list := x # filter (\<lambda>m. addr m \<noteq> addr n) (lru_list c)\<rparr>)"
proof -
  have "Suc (length (filter (\<lambda>m. addr m \<noteq> addr n) (lru_list c))) = length (lru_list c)"
    using length_to_head[OF inv_distinct_addr[OF assms(1)] assms(2)] .
  then show ?thesis
    using assms(3) by (simp add: within_def lru_size_def max_size_def)
qed

lemma insert_ok:
  assumes i: "lru_inv c"
  shows "\<exists>b c'. lru_insert k v c = Some (b, c') \<and> lru_inv c' \<and> (within c \<longrightarrow> within c')"
  using i
proof (cases rule: keyed_cases[where k=k])
  case absent
  with i show ?thesis
    by (auto simp add: insert_absent inv_insert within_def lru_size_def max_size_def)
next
  case (present n)
  with i show ?thesis
    using insert_present[OF i present(1), of v]
    by auto
qed

lemma insert_or_assign_ok:
  assumes i: "lru_inv c"
  shows "\<exists>b c'. insert_or_assign k v c = Some (b, c') \<and> lru_inv c' \<and> (within c \<longrightarrow> within c')"
  using i
proof (cases rule: keyed_cases[where k=k])
  case absent
  with i show ?thesis
    by (auto simp add: insert_or_assign_absent inv_insert within_def lru_size_def max_size_def)
next
  case (present n)
  with i show ?thesis
    using insert_or_assign_present[OF i present(1), of v] inv_touch[OF i present(1), of v] within_to_head[OF i present(1)]
    by auto
qed

lemma find_ok:
  assumes i: "lru_inv c"
  shows "\<exists>b c'. lru_find k c = Some (b, c') \<and> lru_inv c' \<and> (within c \<longrightarrow> within c')"
  using i
proof (cases rule: keyed_cases[where k=k])
  case absent
  with i show ?thesis
    by (auto simp add: find_absent)
next
  case (present n)
  with i show ?thesis
    using find_present[OF i present(1)] inv_to_head[OF i present(1)] within_to_head[OF i present(1)]
    by auto
qed

lemma contains_ok:
  assumes i: "lru_inv c"
  shows "\<exists>b c'. contains k c = Some (b, c') \<and> lru_inv c' \<and> (within c \<longrightarrow> within c')"
  using i
proof (cases rule: keyed_cases[where k=k])
  case absent
  with i show ?thesis
    by (auto simp add: contains_absent)
next
  case (present n)
  with i show ?thesis
    using contains_present[OF i present(1)] inv_to_head[OF i present(1)] within_to_head[OF i present(1)]
    by auto
qed

lemma try_update_ok:
  assumes i: "lru_inv c"
  shows "\<exists>b c'. try_update k f c = Some (b, c') \<and> lru_inv c' \<and> (within c \<longrightarrow> within c')"
  using i
proof (cases rule: keyed_cases[where k=k])
  case absent
  with i show ?thesis
    by (auto simp add: try_update_absent)
next
  case (present n)
  with i show ?thesis
    using try_update_present[OF i present(1), of f] inv_touch[OF i present(1), of "f (second n)"] within_to_head[OF i present(1)]
    by auto
qed

lemma get_ok:
  assumes i: "lru_inv c"
  shows "\<exists>b c'. get k c = Some (b, c') \<and> lru_inv c' \<and> (within c \<longrightarrow> within c')"
  using i
proof (cases rule: keyed_cases[where k=k])
  case absent
  with i show ?thesis
    by (auto simp add: get_absent)
next
  case (present n)
  with i show ?thesis
    using get_present[OF i present(1)] inv_to_head[OF i present(1)] within_to_head[OF i present(1)]
    by auto
qed

lemma get_copy_ok:
  assumes i: "lru_inv c"
  shows "\<exists>b c'. get_copy k c = Some (b, c') \<and> lru_inv c' \<and> (within c \<longrightarrow> within c')"
  using i
proof (cases rule: keyed_cases[where k=k])
  case absent
  with i show ?thesis
    by (auto simp add: get_copy_absent)
next
  case (present n)
  with i show ?thesis
    using get_copy_present[OF i present(1)] inv_to_head[OF i present(1)] within_to_head[OF i present(1)]
    by auto
qed

lemma for_each_ok:
  assumes i: "lru_inv c"
  shows "\<exists>c'. for_each f c = Some c' \<and> lru_inv c' \<and> (within c \<longrightarrow> within c')"
  using inv_values[OF i, of "\<lambda>n. Node (addr n) (first n) (f (first n) (second n))"]
  by (simp add: for_each_def within_def lru_size_def max_size_def)

lemma resize_ok:
  assumes i: "lru_inv c"
  shows "\<exists>c'. resize n c = Some c' \<and> lru_inv c' \<and> within c'"
  using inv_prune[OF i, of n]
  by (simp add: resize_char within_def lru_size_def max_size_def lru_inv_def)

lemma clear_ok: "\<exists>c'. clear c = Some c' \<and> lru_inv c' \<and> within c'"
  by (simp add: clear_def within_def lru_size_def max_size_def lru_inv_def)

lemma call_step_ok:
  assumes i: "lru_inv c"
  shows "\<exists>r c'. call_step a c = Some (r, c') \<and> lru_inv c' \<and> (within c \<longrightarrow> within c')"
proof (cases a)
  case (Insert k v)
  with insert_ok[OF i, of k v] show ?thesis by (auto simp: returning_def)
next
  case (Insert_or_assign k v)
  with insert_or_assign_ok[OF i, of k v] show ?thesis by (auto simp: returning_def)
next
  case (Find k)
  with find_ok[OF i, of k] show ?thesis by (auto simp: returning_def)
next
  case (Contains k)
  with contains_ok[OF i, of k] show ?thesis by (auto simp: returning_def)
next
  case (Try_update k f)
  with try_update_ok[OF i, of k f] show ?thesis by (auto simp: returning_def)
next
  case (For_each f)
  with for_each_ok[OF i, of f] show ?thesis by (auto simp: returning_void_def)
next
  case (Resize n)
  with resize_ok[OF i, of n] show ?thesis by (auto simp: returning_void_def)
next
  case Clear
  with clear_ok[of c] show ?thesis by (auto simp: returning_void_def)
qed (use i in simp_all)

lemma step_ok:
  assumes i: "lru_inv c"
  shows "\<exists>r c'. step a c = Some (r, c') \<and> lru_inv c' \<and> (within c \<longrightarrow> within c')"
proof (cases a)
  case (Common b)
  with call_step_ok[OF i, of b] show ?thesis by simp
next
  case (Get k)
  with get_ok[OF i, of k] show ?thesis by (auto simp: returning_def)
next
  case (Get_copy k)
  with get_copy_ok[OF i, of k] show ?thesis by (auto simp: returning_def)
qed

lemma run_ok:
  "lru_inv c \<Longrightarrow> \<exists>rs c'. run ops c = Some (rs, c') \<and> lru_inv c' \<and> (within c \<longrightarrow> within c')"
proof (induction ops arbitrary: c)
  case Nil
  then show ?case by simp
next
  case (Cons a ops)
  from step_ok[OF Cons.prems, of a] obtain r c1
    where s: "step a c = Some (r, c1)" and i1: "lru_inv c1" and w1: "within c \<longrightarrow> within c1"
    by blast
  from Cons.IH[OF i1] obtain rs c2
    where "run ops c1 = Some (rs, c2)" "lru_inv c2" "within c1 \<longrightarrow> within c2"
    by blast
  with s w1 show ?case by simp
qed



section \<open>Entries, keys and single calls\<close>

lemma filter_key_single:
  "distinct (map first xs) \<Longrightarrow> n \<in> set xs \<Longrightarrow> filter (\<lambda>m. first m = first n) xs = [n]"
proof (induction xs)
  case Nil
  then show ?case by simp
next
  case (Cons x xs)
  show ?case
  proof (cases "x = n")
    case True
    with Cons.prems(1) have "\<forall>m \<in> set xs. first m \<noteq> first n"
      by (auto simp: image_iff)
    then have "filter (\<lambda>m. first m = first n) xs = []"
      by (simp add: filter_empty_conv)
    with True show ?thesis by simp
  next
    case False
    with Cons.prems have "n \<in> set xs" "first x \<noteq> first n"
      by (auto simp: image_iff)
    with Cons show ?thesis by simp
  qed
qed

lemma inv_bijection:
  assumes "lru_inv c"
  shows "bijection c"
  unfolding bijection_def
proof (intro conjI allI impI)
  fix k it
  assume m: "lru_map c k = Some it"
  from inv_lookup[OF assms m] obtain n
    where n: "n \<in> set (lru_list c)" "first n = k" "it = At (addr n)"
    by blast
  from assms have dk: "distinct (map first (lru_list c))"
    by (simp add: lru_inv_def)
  show "\<exists>n. deref it (lru_list c) = Some n \<and> first n = k"
    using deref_At[OF inv_distinct_addr[OF assms] n(1)] n by blast
  show "length (filter (\<lambda>n. first n = k) (lru_list c)) = 1"
    using filter_key_single[OF dk n(1)] n(2) by simp
next
  show "\<forall>n\<in>set (lru_list c). lru_map c (first n) \<noteq> None"
    using assms by (simp add: lru_inv_def)
  show "distinct (map addr (lru_list c))"
    using assms by (rule inv_distinct_addr)
qed

lemma entries_filter:
  "filter (\<lambda>e. fst e \<noteq> k) (map (\<lambda>n. (first n, second n)) xs) =
   map (\<lambda>n. (first n, second n)) (filter (\<lambda>m. first m \<noteq> k) xs)"
  by (simp add: filter_map comp_def)

lemma entries_to_head:
  assumes "lru_inv c" "n \<in> set (lru_list c)"
  shows "entries_of (c\<lparr>lru_list := x # filter (\<lambda>m. addr m \<noteq> addr n) (lru_list c)\<rparr>) =
           (first x, second x) # filter (\<lambda>e. fst e \<noteq> first n) (entries_of c)"
proof -
  from assms(1) have "distinct (map addr (lru_list c))" "distinct (map first (lru_list c))"
    by (simp_all add: lru_inv_def)
  from filter_addr_key[OF this assms(2)] show ?thesis
    by (simp add: entries_of_def entries_filter)
qed

lemma entry_node:
  "(k, w) \<in> set (entries_of c) \<Longrightarrow> \<exists>n \<in> set (lru_list c). first n = k \<and> second n = w"
  by (auto simp: entries_of_def)

lemma inv_not_key:
  "lru_inv c \<Longrightarrow> k \<notin> set (keys_of c) \<Longrightarrow> lru_map c k = None"
  unfolding lru_inv_def keys_of_def by auto

lemma entries_insert:
  "entries_of (c\<lparr>lru_map := m, lru_list := take cap (Node h k v # lru_list c)\<rparr>) =
     take cap ((k, v) # entries_of c)"
  using take_map[of cap "\<lambda>n. (first n, second n)" "Node h k v # lru_list c"]
  by (simp add: entries_of_def)

lemma insert_absent_facts:
  assumes i: "lru_inv c" and a: "\<not> u_contains j c"
  shows "\<exists>c'. lru_insert j v c = Some (True, c') \<and>
           entries_of c' = take (lru_capacity c) ((j, v) # entries_of c) \<and>
           lru_inv c' \<and>
           lru_map c' j = (if 0 < lru_capacity c then Some (lru_begin c') else None) \<and>
           lru_capacity c' = lru_capacity c \<and>
           lru_size c' = min (lru_capacity c) (Suc (lru_size c))"
proof -
  let ?N = "Node (fresh (lru_list c)) j v"
  let ?m = "\<lambda>x. if x \<in> first ` set (drop (lru_capacity c) (?N # lru_list c))
                 then None else ((lru_map c)(j \<mapsto> At (fresh (lru_list c)))) x"
  let ?c' = "c\<lparr>lru_map := ?m, lru_list := take (lru_capacity c) (?N # lru_list c)\<rparr>"
  from a have n: "lru_map c j = None"
    by (simp add: u_contains_def)
  have r: "lru_insert j v c = Some (True, ?c')"
    using n by (rule insert_absent)
  have e: "entries_of ?c' = take (lru_capacity c) ((j, v) # entries_of c)"
    by (rule entries_insert)
  have i': "lru_inv ?c'"
    using i n by (rule inv_insert)
  have m: "lru_map ?c' j = (if 0 < lru_capacity c then Some (lru_begin ?c') else None)"
  proof (cases "lru_capacity c")
    case 0
    then show ?thesis by simp
  next
    case (Suc p)
    have "j \<notin> first ` set (lru_list c)"
      using i n by (rule inv_absent)
    moreover have "set (drop p (lru_list c)) \<subseteq> set (lru_list c)"
      by (rule set_drop_subset)
    ultimately have "j \<notin> first ` set (drop p (lru_list c))"
      by blast
    with Suc show ?thesis
      by (simp add: lru_begin_def list_begin_def)
  qed
  have s: "lru_size ?c' = min (lru_capacity c) (Suc (lru_size c))"
    by (simp add: lru_size_def)
  from r e i' m s show ?thesis
    by (intro exI[of _ ?c']) simp
qed

lemma insert_keeps:
  assumes i: "lru_inv c"
  shows "\<exists>b c'. lru_insert k v c = Some (b, c') \<and> lru_inv c' \<and>
           lru_capacity c' = lru_capacity c \<and> (within c \<longrightarrow> within c')"
proof (cases "u_contains k c")
  case True
  with i show ?thesis by (auto simp: lru_insert_def)
next
  case False
  from insert_absent_facts[OF i False, of v] show ?thesis
    by (auto simp: within_def max_size_def)
qed

lemma inserts_keep:
  "lru_inv c \<Longrightarrow> within c \<Longrightarrow>
   \<exists>rs c'. run (map (\<lambda>(k, v). Common (Insert k v)) kvs) c = Some (rs, c') \<and>
     lru_capacity c' = lru_capacity c \<and> within c'"
proof (induction kvs arbitrary: c)
  case Nil
  then show ?case by simp
next
  case (Cons kv kvs)
  obtain k v where kv: "kv = (k, v)" by (cases kv)
  from insert_keeps[OF Cons.prems(1), of k v] Cons.prems(2) obtain b c1
    where s: "lru_insert k v c = Some (b, c1)" "lru_inv c1" "lru_capacity c1 = lru_capacity c" "within c1"
    by blast
  from Cons.IH[OF s(2) s(4)] obtain rs c2
    where "run (map (\<lambda>(k, v). Common (Insert k v)) kvs) c1 = Some (rs, c2)"
      "lru_capacity c2 = lru_capacity c1" "within c2"
    by blast
  with s kv show ?case
    by (simp add: returning_def)
qed

section \<open>The two classes agree\<close>

lemma small_u_promote_eq: "small_u_promote iter c = u_promote iter c"
  by (simp add: small_u_promote_def u_promote_def)

lemma small_u_evict_eq: "small_u_evict c = u_evict c"
  by (simp add: small_u_evict_def u_evict_def)

lemma small_u_prune_eq: "small_u_prune n c = u_prune n c"
proof (induction n c rule: u_prune.induct)
  case (1 capacity c)
  show ?case
  proof (cases "capacity < length (lru_list c)")
    case False
    then show ?thesis
      by (simp add: small_u_prune.simps[of capacity c] u_prune.simps[of capacity c])
  next
    case True
    show ?thesis
    proof (cases "u_evict c")
      case None
      with True show ?thesis
        by (simp add: small_u_prune.simps[of capacity c] u_prune.simps[of capacity c] small_u_evict_eq)
    next
      case (Some c')
      with True "1.IH"[OF True Some] show ?thesis
        by (simp add: small_u_prune.simps[of capacity c] u_prune.simps[of capacity c] small_u_evict_eq)
    qed
  qed
qed

lemma small_u_insert_eq: "small_u_insert k v c = u_insert k v c"
  by (simp add: small_u_insert_def u_insert_def small_u_prune_eq)

lemma small_find_eq: "small_find k c = lru_find k c"
  by (simp add: small_find_def lru_find_def small_u_promote_eq small_end_def lru_end_def cong: option.case_cong)

lemma small_step_eq: "small_step a c = call_step a c"
proof (cases a)
  case (Insert k v)
  then show ?thesis
    by (simp add: small_insert_def lru_insert_def small_u_contains_def u_contains_def small_u_insert_eq)
next
  case (Insert_or_assign k v)
  then show ?thesis
    by (simp add: small_insert_or_assign_def insert_or_assign_def small_u_promote_eq small_u_insert_eq cong: option.case_cong)
next
  case (Find k)
  then show ?thesis by (simp add: small_find_eq)
next
  case (Contains k)
  then show ?thesis
    by (simp add: small_contains_def contains_def small_find_eq small_end_def lru_end_def cong: option.case_cong)
next
  case (Try_update k f)
  then show ?thesis
    by (simp add: small_try_update_def try_update_def small_find_eq small_end_def lru_end_def cong: option.case_cong)
next
  case (For_each f)
  then show ?thesis by (simp add: small_for_each_def for_each_def)
next
  case (Resize n)
  then show ?thesis by (simp add: small_resize_def resize_def small_u_prune_eq)
next
  case Clear
  then show ?thesis by (simp add: small_clear_def clear_def)
next
  case Size
  then show ?thesis by (simp add: small_size_def lru_size_def)
next
  case Empty
  then show ?thesis by (simp add: small_empty_def lru_empty_def)
next
  case Max_size
  then show ?thesis by (simp add: small_max_size_def max_size_def)
next
  case Begin_iter
  then show ?thesis by (simp add: small_begin_def lru_begin_def)
next
  case End_iter
  then show ?thesis by (simp add: small_end_def lru_end_def)
qed

lemma small_run_eq: "small_run ops c = run (map Common ops) c"
  by (induction ops arbitrary: c) (simp_all add: small_step_eq split: option.splits)

section \<open>The claims\<close>

text \<open>
  C1. Capacity bound. Take a cache built by the constructor with any capacity and any
  sequence of public calls (insert, insert_or_assign, find, get, get_copy, contains,
  try_update, for_each, resize, clear and the observers). After every call of the
  sequence, that is after every prefix of it, all calls so far have returned and
  \<^verbatim>\<open>size()\<close> is at most the capacity current at that point, \<^verbatim>\<open>max_size()\<close>.
\<close>

theorem capacity_bound:
  "\<exists>rs c. run (take i ops) (lru_ctor C) = Some (rs, c) \<and> lru_size c \<le> max_size c"
  using run_ok[OF inv_ctor, of "take i ops" C]
  by (auto simp: within_def lru_ctor_def lru_size_def max_size_def)

text \<open>
  C2. Bijection between index and recency sequence. After every call of every sequence
  of public calls on a freshly constructed cache, every key of the index is the key of
  exactly one entry of the list, the iterator stored for it designates that entry, every
  entry's key is in the index, and no mapping dangles. The state is moreover well-formed
  in the sense of \<open>lru_inv\<close>, the hypothesis under which the claims about single calls
  are stated.
\<close>

theorem index_list_bijection:
  "\<exists>rs c. run (take i ops) (lru_ctor C) = Some (rs, c) \<and> bijection c \<and> lru_inv c"
  using run_ok[OF inv_ctor, of "take i ops" C] inv_bijection by blast

theorem index_list_bijection_witness:
  "\<exists>rs c. run [Common (Insert ''a'' (1::nat)), Common (Insert ''b'' 2), Get ''a'',
               Common (Insert ''c'' 3)] (lru_ctor 2) = Some (rs, c) \<and>
          bijection c \<and> entries_of c = [(''c'', 3), (''a'', 1)] \<and>
          lru_map c ''a'' = Some (At 0) \<and> lru_map c ''b'' = None"
proof -
  let ?ops = "[Common (Insert ''a'' (1::nat)), Common (Insert ''b'' 2), Get ''a'',
               Common (Insert ''c'' 3)]"
  have "map_option (\<lambda>(rs, c). (entries_of c, lru_map c ''a'', lru_map c ''b''))
          (run ?ops (lru_ctor 2)) = Some ([(''c'', 3), (''a'', 1)], Some (At 0), None)"
    by (simp add: lru_eval)
  with index_list_bijection[of 4 ?ops 2] show ?thesis
    by auto
qed

lemma touch_present:
  assumes i: "lru_inv c" and e: "(k, w) \<in> set (entries_of c)"
  shows "(\<exists>it c'. lru_find k c = Some (it, c') \<and> it = lru_begin c' \<and>
             entries_of c' = (k, w) # filter (\<lambda>e. fst e \<noteq> k) (entries_of c)) \<and>
         (\<exists>c'. contains k c = Some (True, c') \<and>
             entries_of c' = (k, w) # filter (\<lambda>e. fst e \<noteq> k) (entries_of c)) \<and>
         (\<exists>c'. get k c = Some (Some w, c') \<and>
             entries_of c' = (k, w) # filter (\<lambda>e. fst e \<noteq> k) (entries_of c)) \<and>
         (\<exists>c'. get_copy k c = Some (Some w, c') \<and>
             entries_of c' = (k, w) # filter (\<lambda>e. fst e \<noteq> k) (entries_of c)) \<and>
         (\<exists>c'. try_update k f c = Some (True, c') \<and>
             entries_of c' = (k, f w) # filter (\<lambda>e. fst e \<noteq> k) (entries_of c)) \<and>
         (\<exists>c'. insert_or_assign k v c = Some (False, c') \<and>
             entries_of c' = (k, v) # filter (\<lambda>e. fst e \<noteq> k) (entries_of c))"
proof -
  from entry_node[OF e] obtain n where n: "n \<in> set (lru_list c)" "first n = k" "second n = w"
    by blast
  note h = entries_to_head[OF i n(1)]
  show ?thesis
    using find_present[OF i n(1)] contains_present[OF i n(1)] get_present[OF i n(1)]
      get_copy_present[OF i n(1)] try_update_present[OF i n(1), of f]
      insert_or_assign_present[OF i n(1), of v] n(2,3)
    by (simp add: h lru_begin_def list_begin_def)
qed

lemma take_head: "0 < n \<Longrightarrow> hd (take n (x # xs)) = x"
  by (cases n) simp_all

lemma touch_absent:
  assumes i: "lru_inv c" and a: "j \<notin> set (keys_of c)"
  shows "(\<exists>c'. lru_insert j v c = Some (True, c') \<and>
             entries_of c' = take (lru_capacity c) ((j, v) # entries_of c) \<and>
             (0 < lru_capacity c \<longrightarrow> hd (entries_of c') = (j, v))) \<and>
         (\<exists>c'. insert_or_assign j v c = Some (True, c') \<and>
             entries_of c' = take (lru_capacity c) ((j, v) # entries_of c) \<and>
             (0 < lru_capacity c \<longrightarrow> hd (entries_of c') = (j, v)))"
  using insert_absent[OF inv_not_key[OF i a], of v] insert_or_assign_absent[OF inv_not_key[OF i a], of v]
  by (simp add: entries_insert take_head)

lemma evict_tail:
  assumes "lru_list c \<noteq> []"
  shows "\<exists>c'. u_evict c = Some c' \<and> entries_of c = entries_of c' @ [last (entries_of c)] \<and>
              lru_map c' = (lru_map c)(fst (last (entries_of c)) := None)"
proof -
  have "entries_of c \<noteq> []" using assms by (simp add: entries_of_def)
  then have "entries_of c = butlast (entries_of c) @ [last (entries_of c)]" by simp
  moreover have "fst (last (entries_of c)) = first (last (lru_list c))"
    using assms by (simp add: entries_of_def last_map)
  ultimately show ?thesis
    using u_evict_char[OF assms] by (simp add: entries_of_def map_butlast)
qed

text \<open>
  C3. Order consistency, as the code has it. In every well-formed state, \<^verbatim>\<open>find\<close>,
  \<^verbatim>\<open>contains\<close>, \<^verbatim>\<open>get\<close>, \<^verbatim>\<open>get_copy\<close>, \<^verbatim>\<open>try_update\<close> and \<^verbatim>\<open>insert_or_assign\<close> on a present key
  leave that key's entry at the head and the other entries in their former relative
  order. \<^verbatim>\<open>insert\<close> and \<^verbatim>\<open>insert_or_assign\<close> of an absent key put the new entry in front of
  the former order and then drop entries from the tail down to the capacity: the new
  entry is the head afterwards when the capacity is at least 1, and with capacity 0 it is
  itself the tail that is dropped. \<^verbatim>\<open>_evict\<close> removes the current tail, never another
  entry, together with its key in the index.
\<close>

theorem touch_order:
  assumes "lru_inv c"
  shows
    "((k, w) \<in> set (entries_of c) \<longrightarrow>
        (\<exists>it c'. lru_find k c = Some (it, c') \<and> it = lru_begin c' \<and>
             entries_of c' = (k, w) # filter (\<lambda>e. fst e \<noteq> k) (entries_of c)) \<and>
        (\<exists>c'. contains k c = Some (True, c') \<and>
             entries_of c' = (k, w) # filter (\<lambda>e. fst e \<noteq> k) (entries_of c)) \<and>
        (\<exists>c'. get k c = Some (Some w, c') \<and>
             entries_of c' = (k, w) # filter (\<lambda>e. fst e \<noteq> k) (entries_of c)) \<and>
        (\<exists>c'. get_copy k c = Some (Some w, c') \<and>
             entries_of c' = (k, w) # filter (\<lambda>e. fst e \<noteq> k) (entries_of c)) \<and>
        (\<exists>c'. try_update k f c = Some (True, c') \<and>
             entries_of c' = (k, f w) # filter (\<lambda>e. fst e \<noteq> k) (entries_of c)) \<and>
        (\<exists>c'. insert_or_assign k v c = Some (False, c') \<and>
             entries_of c' = (k, v) # filter (\<lambda>e. fst e \<noteq> k) (entries_of c))) \<and>
     (j \<notin> set (keys_of c) \<longrightarrow>
        (\<exists>c'. lru_insert j v c = Some (True, c') \<and>
             entries_of c' = take (lru_capacity c) ((j, v) # entries_of c) \<and>
             (0 < lru_capacity c \<longrightarrow> hd (entries_of c') = (j, v))) \<and>
        (\<exists>c'. insert_or_assign j v c = Some (True, c') \<and>
             entries_of c' = take (lru_capacity c) ((j, v) # entries_of c) \<and>
             (0 < lru_capacity c \<longrightarrow> hd (entries_of c') = (j, v)))) \<and>
     (lru_list c \<noteq> [] \<longrightarrow>
        (\<exists>c'. u_evict c = Some c' \<and> entries_of c = entries_of c' @ [last (entries_of c)] \<and>
              lru_map c' = (lru_map c)(fst (last (entries_of c)) := None)))"
  using touch_present[OF assms] touch_absent[OF assms] evict_tail by blast

theorem touch_order_witness:
  "lru_inv \<lparr>lru_map = [''a'' \<mapsto> At 0, ''b'' \<mapsto> At 1],
            lru_list = [Node 1 ''b'' (20::nat), Node 0 ''a'' 10], lru_capacity = 2\<rparr> \<and>
   (\<exists>c'. get ''a'' \<lparr>lru_map = [''a'' \<mapsto> At 0, ''b'' \<mapsto> At 1],
            lru_list = [Node 1 ''b'' (20::nat), Node 0 ''a'' 10], lru_capacity = 2\<rparr> = Some (Some 10, c') \<and>
         entries_of c' = [(''a'', 10), (''b'', 20)]) \<and>
   (\<exists>c'. lru_insert ''c'' 30 \<lparr>lru_map = [''a'' \<mapsto> At 0, ''b'' \<mapsto> At 1],
            lru_list = [Node 1 ''b'' (20::nat), Node 0 ''a'' 10], lru_capacity = 2\<rparr> = Some (True, c') \<and>
         entries_of c' = [(''c'', 30), (''b'', 20)]) \<and>
   (\<exists>c'. u_evict \<lparr>lru_map = [''a'' \<mapsto> At 0, ''b'' \<mapsto> At 1],
            lru_list = [Node 1 ''b'' (20::nat), Node 0 ''a'' 10], lru_capacity = 2\<rparr> = Some c' \<and>
         entries_of c' = [(''b'', 20)])"
proof -
  let ?c = "\<lparr>lru_map = [''a'' \<mapsto> At 0, ''b'' \<mapsto> At 1],
             lru_list = [Node 1 ''b'' (20::nat), Node 0 ''a'' 10], lru_capacity = 2\<rparr>"
  have i: "lru_inv ?c"
    by (simp add: lru_inv_def)
  have e: "entries_of ?c = [(''b'', 20), (''a'', 10)]"
    by (simp add: entries_of_def)
  have p: "(''a'', 10) \<in> set (entries_of ?c)" "''c'' \<notin> set (keys_of ?c)" "lru_list ?c \<noteq> []"
    by (simp_all add: entries_of_def keys_of_def)
  note t = touch_order[OF i, where k = "''a''" and w = 10 and f = id and v = 30 and j = "''c''"]
  from t p have
    "(\<exists>c'. get ''a'' ?c = Some (Some 10, c') \<and>
         entries_of c' = (''a'', 10) # filter (\<lambda>e. fst e \<noteq> ''a'') (entries_of ?c)) \<and>
     (\<exists>c'. lru_insert ''c'' 30 ?c = Some (True, c') \<and>
         entries_of c' = take (lru_capacity ?c) ((''c'', 30) # entries_of ?c)) \<and>
     (\<exists>c'. u_evict ?c = Some c' \<and> entries_of ?c = entries_of c' @ [last (entries_of ?c)])"
    by blast
  then show ?thesis
    unfolding e using i by auto
qed

text \<open>
  The claim as worded fails for the degenerate capacity: on a cache of capacity 0,
  \<^verbatim>\<open>insert("a", 1)\<close> returns true and leaves no entry, so the key touched is not the head
  of the recency order when the call returns.
\<close>

theorem touch_order_counterexample:
  "map_option fst (lru_insert ''a'' (1::nat) (lru_ctor 0)) = Some True \<and>
   map_option (entries_of \<circ> snd) (lru_insert ''a'' (1::nat) (lru_ctor 0)) = Some []"
  by (simp add: lru_eval)

text \<open>
  C4. The contract of \<^verbatim>\<open>insert\<close>. In every well-formed state: when the key is present the
  call returns false and leaves the whole state as it was; when it is absent the call
  returns true, the new entry is put at the head and entries are dropped from the tail
  while the size exceeds the capacity, the index stays consistent with the list and
  maps the key to the head when the entry survives, and the capacity is unchanged. The
  size afterwards is the smaller of the capacity and the former size plus one: with
  capacity 0 it is 0.
\<close>

theorem insert_contract:
  assumes "lru_inv c"
  shows "(u_contains k c \<longrightarrow> lru_insert k v c = Some (False, c)) \<and>
         (\<not> u_contains j c \<longrightarrow>
            (\<exists>c'. lru_insert j v c = Some (True, c') \<and>
               entries_of c' = take (lru_capacity c) ((j, v) # entries_of c) \<and>
               lru_inv c' \<and>
               lru_map c' j = (if 0 < lru_capacity c then Some (lru_begin c') else None) \<and>
               lru_capacity c' = lru_capacity c \<and>
               lru_size c' = min (lru_capacity c) (Suc (lru_size c))))"
  using insert_absent_facts[OF assms, of j v] by (simp add: lru_insert_def)

theorem insert_contract_witness:
  "(\<exists>c'. lru_insert ''a'' (1::nat) (lru_ctor 0) = Some (True, c') \<and> lru_size c' = 0) \<and>
   lru_insert ''a'' 11
     \<lparr>lru_map = [''a'' \<mapsto> At 0, ''b'' \<mapsto> At 1],
      lru_list = [Node 1 ''b'' (20::nat), Node 0 ''a'' 10], lru_capacity = 2\<rparr> =
   Some (False, \<lparr>lru_map = [''a'' \<mapsto> At 0, ''b'' \<mapsto> At 1],
      lru_list = [Node 1 ''b'' (20::nat), Node 0 ''a'' 10], lru_capacity = 2\<rparr>)"
proof -
  let ?c = "\<lparr>lru_map = [''a'' \<mapsto> At 0, ''b'' \<mapsto> At 1],
             lru_list = [Node 1 ''b'' (20::nat), Node 0 ''a'' 10], lru_capacity = 2\<rparr>"
  have i: "lru_inv ?c"
    by (simp add: lru_inv_def)
  have p: "u_contains ''a'' ?c"
    by (simp add: u_contains_def)
  have z: "\<not> u_contains ''a'' (lru_ctor 0 :: (string, nat) lru)" "lru_capacity (lru_ctor 0 :: (string, nat) lru) = 0"
    by (simp_all add: u_contains_def lru_ctor_def)
  from insert_contract[OF i, of "''a''" 11 "''a''"] p
  have 1: "lru_insert ''a'' 11 ?c = Some (False, ?c)"
    by blast
  from insert_contract[OF inv_ctor, of "''a''" 0 1 "''a''"] z
  have 2: "\<exists>c'. lru_insert ''a'' (1::nat) (lru_ctor 0) = Some (True, c') \<and> lru_size c' = 0"
    by auto
  from 1 2 show ?thesis by blast
qed

text \<open>
  C5. \<^verbatim>\<open>insert_or_assign\<close> on a present key. In every well-formed state that holds the key,
  the call returns false, writes the new value into the node that already held the key
  (same address, same mapping in the index), moves that node to the head, keeps the
  other entries in order, leaves size and capacity unchanged, and a following \<^verbatim>\<open>get\<close> of
  the key yields the new value.
\<close>

theorem insert_or_assign_present_key:
  assumes i: "lru_inv c" and p: "u_contains k c"
  shows "\<exists>n c'. n \<in> set (lru_list c) \<and> first n = k \<and>
           insert_or_assign k v c = Some (False, c') \<and>
           lru_list c' = Node (addr n) k v # filter (\<lambda>m. first m \<noteq> k) (lru_list c) \<and>
           lru_map c' = lru_map c \<and>
           lru_size c' = lru_size c \<and>
           max_size c' = max_size c \<and>
           (\<exists>c''. get k c' = Some (Some v, c''))"
proof -
  from p obtain it where "lru_map c k = Some it"
    by (auto simp: u_contains_def)
  from inv_lookup[OF i this] obtain n where n: "n \<in> set (lru_list c)" "first n = k"
    by blast
  let ?F = "filter (\<lambda>m. addr m \<noteq> addr n) (lru_list c)"
  let ?c' = "c\<lparr>lru_list := Node (addr n) (first n) v # ?F\<rparr>"
  have r: "insert_or_assign k v c = Some (False, ?c')"
    using insert_or_assign_present[OF i n(1), of v] n(2) by simp
  from i have d: "distinct (map addr (lru_list c))" "distinct (map first (lru_list c))"
    by (simp_all add: lru_inv_def)
  have f: "?F = filter (\<lambda>m. first m \<noteq> k) (lru_list c)"
    using filter_addr_key[OF d n(1)] n(2) by simp
  have s: "lru_size ?c' = lru_size c"
    using length_to_head[OF d(1) n(1)] by (simp add: lru_size_def)
  have i': "lru_inv ?c'"
    using i n(1) by (rule inv_touch)
  have "Node (addr n) (first n) v \<in> set (lru_list ?c')"
    by simp
  from get_present[OF i' this] n(2) have g: "\<exists>c''. get k ?c' = Some (Some v, c'')"
    by simp
  from r f s g n show ?thesis
    by (intro exI[of _ n] exI[of _ ?c']) (simp add: max_size_def)
qed

theorem insert_or_assign_present_key_witness:
  "lru_inv \<lparr>lru_map = [''a'' \<mapsto> At 0], lru_list = [Node 0 ''a'' (1::nat)], lru_capacity = 2\<rparr> \<and>
   u_contains ''a'' \<lparr>lru_map = [''a'' \<mapsto> At 0], lru_list = [Node 0 ''a'' (1::nat)], lru_capacity = 2\<rparr> \<and>
   (\<exists>c'. insert_or_assign ''a'' 2
            \<lparr>lru_map = [''a'' \<mapsto> At 0], lru_list = [Node 0 ''a'' (1::nat)], lru_capacity = 2\<rparr> =
          Some (False, c') \<and> lru_size c' = 1 \<and> (\<exists>c''. get ''a'' c' = Some (Some 2, c'')))"
proof -
  let ?c = "\<lparr>lru_map = [''a'' \<mapsto> At 0], lru_list = [Node 0 ''a'' (1::nat)], lru_capacity = 2\<rparr>"
  have i: "lru_inv ?c"
    by (simp add: lru_inv_def)
  have p: "u_contains ''a'' ?c"
    by (simp add: u_contains_def)
  have s: "lru_size ?c = 1"
    by (simp add: lru_size_def)
  from insert_or_assign_present_key[OF i p, of 2] s i p show ?thesis
    by auto
qed

text \<open>
  C6. Resize down. In every state, \<^verbatim>\<open>resize(n)\<close> with \<open>n\<close> below the size returns, keeps
  exactly the first \<open>n\<close> entries of the recency order (the \<open>n\<close> most recently touched),
  erases the keys of the dropped entries from the index, leaves the size at \<open>n\<close> and sets
  the capacity, hence \<^verbatim>\<open>max_size()\<close>, to \<open>n\<close>.
\<close>

theorem resize_down:
  assumes "n < lru_size c"
  shows "\<exists>c'. resize n c = Some c' \<and>
           lru_size c' = n \<and>
           lru_list c' = take n (lru_list c) \<and>
           (\<forall>x. lru_map c' x = (if x \<in> first ` set (drop n (lru_list c)) then None else lru_map c x)) \<and>
           max_size c' = n"
  using assms by (simp add: resize_char lru_size_def max_size_def)

theorem resize_down_witness:
  "(1::nat) < lru_size \<lparr>lru_map = [''a'' \<mapsto> At 0, ''b'' \<mapsto> At 1, ''c'' \<mapsto> At 2],
           lru_list = [Node 2 ''c'' (30::nat), Node 1 ''b'' 20, Node 0 ''a'' 10], lru_capacity = 3\<rparr> \<and>
   (\<exists>c'. resize 1 \<lparr>lru_map = [''a'' \<mapsto> At 0, ''b'' \<mapsto> At 1, ''c'' \<mapsto> At 2],
           lru_list = [Node 2 ''c'' (30::nat), Node 1 ''b'' 20, Node 0 ''a'' 10], lru_capacity = 3\<rparr> = Some c' \<and>
         lru_size c' = 1 \<and> lru_list c' = [Node 2 ''c'' 30] \<and> max_size c' = 1 \<and>
         lru_map c' ''c'' = Some (At 2) \<and> lru_map c' ''b'' = None \<and> lru_map c' ''a'' = None)"
proof -
  let ?c = "\<lparr>lru_map = [''a'' \<mapsto> At 0, ''b'' \<mapsto> At 1, ''c'' \<mapsto> At 2],
           lru_list = [Node 2 ''c'' (30::nat), Node 1 ''b'' 20, Node 0 ''a'' 10], lru_capacity = 3\<rparr>"
  have l: "(1::nat) < lru_size ?c"
    by (simp add: lru_size_def)
  from resize_down[OF l] l show ?thesis
    by auto
qed

text \<open>
  C7. Absence is idempotent. \<^verbatim>\<open>find\<close> of a key that is not in the cache (not in the index;
  in a well-formed state, equivalently, the key of no entry) returns \<^verbatim>\<open>end()\<close> and leaves
  the state exactly as it was: size, recency order, every entry's value and position,
  and no entry is created for the key.
\<close>

theorem find_absent_key:
  "(\<not> u_contains k c \<longrightarrow> lru_find k c = Some (lru_end c, c)) \<and>
   (lru_inv c \<and> k \<notin> set (keys_of c) \<longrightarrow> lru_find k c = Some (lru_end c, c))"
  using inv_not_key[of c k] by (auto simp: lru_find_def u_contains_def)

theorem find_absent_key_witness:
  "\<not> u_contains ''z'' \<lparr>lru_map = [''a'' \<mapsto> At 0, ''b'' \<mapsto> At 1],
      lru_list = [Node 1 ''b'' (20::nat), Node 0 ''a'' 10], lru_capacity = 2\<rparr> \<and>
   lru_inv \<lparr>lru_map = [''a'' \<mapsto> At 0, ''b'' \<mapsto> At 1],
      lru_list = [Node 1 ''b'' (20::nat), Node 0 ''a'' 10], lru_capacity = 2\<rparr> \<and>
   ''z'' \<notin> set (keys_of \<lparr>lru_map = [''a'' \<mapsto> At 0, ''b'' \<mapsto> At 1],
      lru_list = [Node 1 ''b'' (20::nat), Node 0 ''a'' 10], lru_capacity = 2\<rparr>) \<and>
   lru_find ''z'' \<lparr>lru_map = [''a'' \<mapsto> At 0, ''b'' \<mapsto> At 1],
      lru_list = [Node 1 ''b'' (20::nat), Node 0 ''a'' 10], lru_capacity = 2\<rparr> =
   Some (End, \<lparr>lru_map = [''a'' \<mapsto> At 0, ''b'' \<mapsto> At 1],
      lru_list = [Node 1 ''b'' (20::nat), Node 0 ''a'' 10], lru_capacity = 2\<rparr>)"
proof -
  let ?c = "\<lparr>lru_map = [''a'' \<mapsto> At 0, ''b'' \<mapsto> At 1],
      lru_list = [Node 1 ''b'' (20::nat), Node 0 ''a'' 10], lru_capacity = 2\<rparr>"
  have a: "\<not> u_contains ''z'' ?c"
    by (simp add: u_contains_def)
  have i: "lru_inv ?c"
    by (simp add: lru_inv_def)
  have k: "''z'' \<notin> set (keys_of ?c)"
    by (simp add: keys_of_def)
  from find_absent_key[of "''z''" ?c] a have "lru_find ''z'' ?c = Some (lru_end ?c, ?c)"
    by blast
  with a i k show ?thesis
    by (simp add: lru_end_def)
qed

text \<open>
  C8. What can change the recency order, as the code has it. A call that is none of
  \<^verbatim>\<open>find\<close>, \<^verbatim>\<open>get\<close>, \<^verbatim>\<open>get_copy\<close>, \<^verbatim>\<open>contains\<close>, \<^verbatim>\<open>try_update\<close>, \<^verbatim>\<open>insert\<close> and \<^verbatim>\<open>insert_or_assign\<close>
  returns and does not reorder: iteration (\<^verbatim>\<open>begin\<close>, \<^verbatim>\<open>end\<close>, \<^verbatim>\<open>for_each\<close>) and the observers
  leave the sequence of keys as it was, and \<^verbatim>\<open>resize\<close> and \<^verbatim>\<open>clear\<close> leave a prefix of it,
  removing entries from the tail only.
\<close>

theorem order_kept_outside_touches:
  assumes "\<not> may_reorder a"
  shows "\<exists>r c'. step a c = Some (r, c') \<and>
           (if shrinks a then keys_of c' = take (length (keys_of c')) (keys_of c)
            else keys_of c' = keys_of c)"
proof (cases a)
  case (Common b)
  with assms show ?thesis
  proof (cases b)
    case (For_each f)
    with Common show ?thesis
      by (simp add: for_each_def returning_void_def keys_of_def comp_def)
  next
    case (Resize n)
    have "take (min (length (lru_list c)) n) (map first (lru_list c)) = take n (map first (lru_list c))"
      by (simp add: min_def)
    with Common Resize show ?thesis
      by (simp add: resize_char returning_void_def keys_of_def take_map)
  next
    case Clear
    with Common show ?thesis
      by (simp add: clear_def returning_void_def keys_of_def)
  qed simp_all
next
  case (Get k)
  with assms show ?thesis by simp
next
  case (Get_copy k)
  with assms show ?thesis by simp
qed

theorem order_kept_outside_touches_witness:
  "\<not> may_reorder (Common (For_each (\<lambda>k v. v + 1)) :: (string, nat) op) \<and>
   \<not> may_reorder (Common (Resize 1) :: (string, nat) op) \<and>
   (\<exists>r c'. step (Common (For_each (\<lambda>k v. v + 1)))
              \<lparr>lru_map = [''a'' \<mapsto> At 0, ''b'' \<mapsto> At 1],
               lru_list = [Node 1 ''b'' (20::nat), Node 0 ''a'' 10], lru_capacity = 2\<rparr> = Some (r, c') \<and>
            keys_of c' = [''b'', ''a'']) \<and>
   (\<exists>r c'. step (Common (Resize 1))
              \<lparr>lru_map = [''a'' \<mapsto> At 0, ''b'' \<mapsto> At 1],
               lru_list = [Node 1 ''b'' (20::nat), Node 0 ''a'' 10], lru_capacity = 2\<rparr> = Some (r, c') \<and>
            keys_of c' = take (length (keys_of c')) [''b'', ''a''])"
proof -
  let ?c = "\<lparr>lru_map = [''a'' \<mapsto> At 0, ''b'' \<mapsto> At 1],
               lru_list = [Node 1 ''b'' (20::nat), Node 0 ''a'' 10], lru_capacity = 2\<rparr>"
  let ?f = "Common (For_each (\<lambda>k v. v + 1)) :: (string, nat) op"
  let ?r = "Common (Resize 1) :: (string, nat) op"
  have n: "\<not> may_reorder ?f" "\<not> may_reorder ?r"
    by simp_all
  have k: "keys_of ?c = [''b'', ''a'']"
    by (simp add: keys_of_def)
  have s: "\<not> shrinks ?f" "shrinks ?r"
    by simp_all
  from order_kept_outside_touches[OF n(1), of ?c] s(1)
  have 1: "\<exists>r c'. step ?f ?c = Some (r, c') \<and> keys_of c' = [''b'', ''a'']"
    unfolding k by simp
  from order_kept_outside_touches[OF n(2), of ?c] s(2)
  have 2: "\<exists>r c'. step ?r ?c = Some (r, c') \<and> keys_of c' = take (length (keys_of c')) [''b'', ''a'']"
    unfolding k by simp
  from n 1 2 show ?thesis
    by blast
qed

text \<open>
  The list of the claim leaves out \<^verbatim>\<open>get_copy\<close>, which promotes like \<^verbatim>\<open>get\<close>: after
  \<^verbatim>\<open>insert("a", 1)\<close> and \<^verbatim>\<open>insert("b", 2)\<close> on a cache of capacity 2 the order is b, a, and
  \<^verbatim>\<open>get_copy("a")\<close> makes it a, b.
\<close>

theorem reorder_list_counterexample:
  "map_option (keys_of \<circ> snd)
     (run [Common (Insert ''a'' (1::nat)), Common (Insert ''b'' 2)] (lru_ctor 2)) =
     Some [''b'', ''a''] \<and>
   map_option (keys_of \<circ> snd)
     (run [Common (Insert ''a'' (1::nat)), Common (Insert ''b'' 2), Get_copy ''a''] (lru_ctor 2)) =
     Some [''a'', ''b'']"
  by (simp add: lru_eval)

text \<open>
  C9. The two classes agree. For every sequence of calls of the member functions they
  share (insert, insert_or_assign, find, contains, try_update, for_each, resize, clear,
  size, empty, max_size, begin, end) and every capacity, the class of \<^verbatim>\<open>src/lru.h\<close> and
  the class of \<^verbatim>\<open>src/include/lru.h\<close> both go wrong or both return, with the same results
  and the same final state, hence the same entries in the same recency order; the same
  holds from any common state. Iterators are compared as addresses, both lists being
  served by the same allocator. The smaller class lacks only \<^verbatim>\<open>get\<close> and \<^verbatim>\<open>get_copy\<close>,
  which are no shared calls.
\<close>

theorem implementations_agree:
  "small_run ops (small_ctor C) = run (map Common ops) (lru_ctor C) \<and>
   small_run ops c = run (map Common ops) c \<and>
   Get k \<notin> range Common \<and> Get_copy k \<notin> range Common"
  by (auto simp: small_run_eq small_ctor_def lru_ctor_def)

text \<open>
  C10. \<^verbatim>\<open>clear\<close> keeps the capacity. In every state \<^verbatim>\<open>clear()\<close> returns and leaves an empty
  list and an empty index, so \<^verbatim>\<open>size()\<close> is 0, while \<^verbatim>\<open>max_size()\<close> is what it was; any
  sequence of inserts that follows returns and leaves the capacity at that value and
  the size within it.
\<close>

theorem clear_keeps_capacity:
  "\<exists>c'. clear c = Some c' \<and> lru_size c' = 0 \<and> lru_empty c' \<and> lru_list c' = [] \<and>
      lru_map c' = Map.empty \<and> max_size c' = max_size c \<and>
      (\<exists>rs c''. run (map (\<lambda>(k, v). Common (Insert k v)) kvs) c' = Some (rs, c'') \<and>
         max_size c'' = max_size c \<and> lru_size c'' \<le> max_size c)"
proof -
  let ?c' = "c\<lparr>lru_map := Map.empty, lru_list := []\<rparr>"
  have i: "lru_inv ?c'" and w: "within ?c'"
    by (simp_all add: lru_inv_def within_def lru_size_def)
  from inserts_keep[OF i w, of kvs] obtain rs c''
    where "run (map (\<lambda>(k, v). Common (Insert k v)) kvs) ?c' = Some (rs, c'')"
      "lru_capacity c'' = lru_capacity ?c'" "within c''"
    by blast
  then show ?thesis
    by (auto simp: clear_def lru_size_def lru_empty_def max_size_def within_def)
qed

end
